theory Spec2Isabelle
  imports Complex_Main "HOL-Library.Word" "HOL-Library.Signed_Division"
begin

section \<open>Integer types of \<^verbatim>\<open>intfloatconversions.h\<close>\<close>

text \<open>
  The header is a set of function templates over a floating type \<open>F\<close> and an integer
  type \<open>I\<close>. The templates read three traits of \<open>I\<close>: \<^verbatim>\<open>std::is_unsigned<I>\<close>,
  \<^verbatim>\<open>std::numeric_limits<I>::max()\<close> and \<^verbatim>\<open>std::numeric_limits<I>::min()\<close>. An integer
  type is therefore a record of its signedness and its width in bits, and a value of the
  type is an \<open>int\<close> between the two limits.
\<close>

record itype =
  is_unsigned :: bool
  width :: nat

definition limits_max :: "itype \<Rightarrow> int" where
  "limits_max I = (if is_unsigned I then 2 ^ width I - 1 else 2 ^ (width I - 1) - 1)"

definition limits_min :: "itype \<Rightarrow> int" where
  "limits_min I = (if is_unsigned I then 0 else - (2 ^ (width I - 1)))"

definition uint8_t :: itype where
  "uint8_t = \<lparr>is_unsigned = True, width = 8\<rparr>"

definition int16_t :: itype where
  "int16_t = \<lparr>is_unsigned = False, width = 16\<rparr>"


text \<open>The limits of the C++ type \<^verbatim>\<open>int\<close>, which \<^verbatim>\<open>round_float\<close> and the loops use.\<close>

definition INT_MIN :: int where
  "INT_MIN = - (2 ^ 31)"

definition INT_MAX :: int where
  "INT_MAX = 2 ^ 31 - 1"

section \<open>Floating types\<close>

text \<open>
  The floating types of the header are \<^verbatim>\<open>float\<close> and \<^verbatim>\<open>double\<close>, IEEE 754 binary32 and
  binary64 with 24 and 53 significant bits (\<^verbatim>\<open>std::numeric_limits<F>::digits\<close>). A finite
  value of either is a rational number, and every operation on \<open>F\<close> returns the exact
  rational result rounded to the nearest value of \<open>F\<close>, a tie going to the value with
  the even significand: the conversion of an integer to \<open>F\<close>, the sum, the difference,
  the product and the quotient each round once (no fused multiply-add, no wider
  intermediate format). Comparisons and negation are exact.

  The nearest value of \<open>F\<close> to \<open>x\<close> is found on the grid of \<open>x\<close>'s binade: with
  \<open>2 ^ e \<le> \<bar>x\<bar> < 2 ^ (e + 1)\<close> the grid step is \<open>2 ^ (e - digits + 1)\<close>, and \<open>x\<close> is
  rounded to a multiple of the step. The exponent range of \<open>F\<close> is not bounded here:
  where \<open>F\<close> would overflow to an infinity, the value kept instead is as far outside
  every integer type, and its cast is undefined either way. A division by zero, whose
  result is an infinity or a NaN, has no rational value and is \<open>None\<close>.
\<close>

type_synonym flt = rat

datatype ftype = Float | Double

fun digits :: "ftype \<Rightarrow> nat" where
  "digits Float = 24"
| "digits Double = 53"

text \<open>The integer nearest to \<open>x\<close>, an exact tie going to the even neighbour.\<close>

definition half_even :: "rat \<Rightarrow> int" where
  "half_even x =
     (let t = \<lfloor>x\<rfloor>; r = x - of_int t
      in if r > 1 / 2 \<or> (r = 1 / 2 \<and> even (t + 1)) then t + 1 else t)"

text \<open>
  The binary exponent \<open>e\<close> of a positive \<open>x\<close>, with \<open>2 ^ e \<le> x < 2 ^ (e + 1)\<close>: by halving
  from above 2, by doubling from below 1.
\<close>

function ilog2_up :: "rat \<Rightarrow> int" where
  "ilog2_up x = (if 2 \<le> x then ilog2_up (x / 2) + 1 else 0)"
  by pat_completeness auto
termination
proof (relation "measure (\<lambda>x. nat \<lfloor>x\<rfloor>)")
  fix x :: rat
  assume x: "2 \<le> x"
  have "x / 2 \<le> x - 1" using x by simp
  then have "\<lfloor>x / 2\<rfloor> \<le> \<lfloor>x - 1\<rfloor>" by (rule floor_mono)
  moreover have "1 \<le> \<lfloor>x\<rfloor>" using x by (simp add: le_floor_iff)
  ultimately show "(x / 2, x) \<in> measure (\<lambda>x. nat \<lfloor>x\<rfloor>)" by simp
qed simp

function ilog2_down :: "rat \<Rightarrow> int" where
  "ilog2_down x = (if 0 < x \<and> x < 1 then ilog2_down (x * 2) - 1 else 0)"
  by pat_completeness auto
termination
proof (relation "measure (\<lambda>x. nat \<lceil>1 / x\<rceil>)")
  fix x :: rat
  assume x: "0 < x \<and> x < 1"
  then have "1 < 1 / x" by simp
  then have n: "2 \<le> \<lceil>1 / x\<rceil>" by (simp add: le_ceiling_iff)
  have "1 / x \<le> of_int \<lceil>1 / x\<rceil>" by (rule le_of_int_ceiling)
  then have "1 / (x * 2) \<le> of_int \<lceil>1 / x\<rceil> / 2" by simp
  also have "\<dots> \<le> of_int (\<lceil>1 / x\<rceil> - 1)" using n by simp
  finally have "\<lceil>1 / (x * 2)\<rceil> \<le> \<lceil>1 / x\<rceil> - 1" by (simp only: ceiling_le_iff)
  with n x show "(x * 2, x) \<in> measure (\<lambda>x. nat \<lceil>1 / x\<rceil>)" by simp
qed simp

definition ilog2 :: "rat \<Rightarrow> int" where
  "ilog2 x = (if 1 \<le> x then ilog2_up x else ilog2_down x)"

definition quantum :: "ftype \<Rightarrow> rat \<Rightarrow> rat" where
  "quantum F x = 2 powi (ilog2 \<bar>x\<bar> - (int (digits F) - 1))"

definition rnd :: "ftype \<Rightarrow> rat \<Rightarrow> flt" where
  "rnd F x = of_int (half_even (x / quantum F x)) * quantum F x"

text \<open>\<^verbatim>\<open>static_cast<F>(k)\<close> of an integer, and the four operations of \<open>F\<close>.\<close>

definition of_integral :: "ftype \<Rightarrow> int \<Rightarrow> flt" where
  "of_integral F k = rnd F (of_int k)"

definition fadd :: "ftype \<Rightarrow> flt \<Rightarrow> flt \<Rightarrow> flt" where
  "fadd F a b = rnd F (a + b)"

definition fsub :: "ftype \<Rightarrow> flt \<Rightarrow> flt \<Rightarrow> flt" where
  "fsub F a b = rnd F (a - b)"

definition fmul :: "ftype \<Rightarrow> flt \<Rightarrow> flt \<Rightarrow> flt" where
  "fmul F a b = rnd F (a * b)"

definition fdiv :: "ftype \<Rightarrow> flt \<Rightarrow> flt \<Rightarrow> flt option" where
  "fdiv F a b = (if b = 0 then None else Some (rnd F (a / b)))"

text \<open>
  \<^verbatim>\<open>static_cast\<close> from a floating value to an integer type discards the fractional part
  (truncation toward zero); when the truncated value is not a value of the destination
  type the behaviour is undefined, which is \<open>None\<close> here.
\<close>

definition trunc :: "flt \<Rightarrow> int" where
  "trunc x = (if 0 \<le> x then \<lfloor>x\<rfloor> else \<lceil>x\<rceil>)"

definition float_to_integral :: "int \<Rightarrow> int \<Rightarrow> flt \<Rightarrow> int option" where
  "float_to_integral lo hi x = (let t = trunc x in if lo \<le> t \<and> t \<le> hi then Some t else None)"

definition cast_int :: "flt \<Rightarrow> int option" where
  "cast_int x = float_to_integral INT_MIN INT_MAX x"

definition cast_I :: "itype \<Rightarrow> flt \<Rightarrow> int option" where
  "cast_I I x = float_to_integral (limits_min I) (limits_max I) x"

section \<open>The conversions\<close>

text \<open>
  \<^verbatim>\<open>get_zero<T>()\<close>: \<^verbatim>\<open>static_cast<T>((max / 2) + 1)\<close> for an unsigned type, 0 otherwise.
  The cast to the unsigned type reduces modulo \<open>2 ^ width\<close>.
\<close>

definition get_zero :: "itype \<Rightarrow> int" where
  "get_zero I = (if is_unsigned I then (limits_max I div 2 + 1) mod 2 ^ width I else 0)"

definition clip_float :: "flt \<Rightarrow> flt" where
  "clip_float v = (if v > 1 then 1 else if v < - 1 then - 1 else v)"

text \<open>
  \<^verbatim>\<open>round_float<T>\<close>. \<open>truncated\<close> and \<open>roundValue\<close> are C++ \<^verbatim>\<open>int\<close>s: the two casts
  and the final addition are undefined outside the range of \<^verbatim>\<open>int\<close>. The second cast
  is evaluated only when the remainder is exactly one half (\<^verbatim>\<open>||\<close> and \<^verbatim>\<open>&&\<close>
  short-circuit). \<^verbatim>\<open>%\<close> is the truncating remainder \<open>smod\<close>. The subtraction
  \<^verbatim>\<open>value - static_cast<T>(truncated)\<close>, the sum \<^verbatim>\<open>value + 1\<close> and the final cast to
  \<^verbatim>\<open>T\<close> are operations of \<open>T\<close>; the comparisons with \<^verbatim>\<open>0.5\<close> are exact.
\<close>

definition round_float :: "ftype \<Rightarrow> flt \<Rightarrow> flt option" where
  "round_float T v =
     (case cast_int v of
        None \<Rightarrow> None
      | Some truncated \<Rightarrow>
          let remainder = fsub T v (of_integral T truncated) in
          (case (if remainder > 1 / 2 then Some (1::int)
                 else if remainder = 1 / 2
                   then (case cast_int (fadd T v (of_integral T 1)) of
                           None \<Rightarrow> None
                         | Some k \<Rightarrow> Some (if k smod 2 = 0 then 1 else 0))
                 else Some 0) of
             None \<Rightarrow> None
           | Some roundValue \<Rightarrow>
               let r = truncated + (if v < 0 then - roundValue else roundValue)
               in if INT_MIN \<le> r \<and> r \<le> INT_MAX then Some (of_integral T r) else None))"

text \<open>\<^verbatim>\<open>float_to_int<F, I>(F value)\<close>, branch for branch.\<close>

definition float_to_int :: "ftype \<Rightarrow> itype \<Rightarrow> flt \<Rightarrow> int option" where
  "float_to_int F I v =
     (if v = 0 then Some (get_zero I)
      else if is_unsigned I then
        (if v < 0
         then (case round_float F
                      (fadd F (of_integral F (get_zero I))
                         (fmul F v (of_integral F (get_zero I)))) of
                 None \<Rightarrow> None
               | Some r \<Rightarrow> cast_I I r)
         else cast_I I
                (fadd F (fmul F v (of_integral F (get_zero I - 1)))
                   (of_integral F (get_zero I))))
      else if v < 0
        then (case round_float F (fmul F (- v) (of_integral F (limits_min I))) of
                None \<Rightarrow> None
              | Some r \<Rightarrow> cast_I I r)
      else (case round_float F (fmul F v (of_integral F (limits_max I))) of
              None \<Rightarrow> None
            | Some r \<Rightarrow> cast_I I r))"

text \<open>\<^verbatim>\<open>int_to_float<I, F>(I value)\<close>, branch for branch.\<close>

definition int_to_float :: "ftype \<Rightarrow> itype \<Rightarrow> int \<Rightarrow> flt option" where
  "int_to_float F I v =
     (if v = get_zero I then Some 0
      else if is_unsigned I then
        (if v < get_zero I
         then fdiv F (of_integral F v) (of_integral F (get_zero I - 1))
         else fdiv F (of_integral F (v - get_zero I)) (of_integral F (get_zero I)))
      else if v < 0
        then Some (fmul F (of_integral F v) (of_integral F (limits_max I)))
      else Some (fmul F (of_integral F v) (of_integral F (limits_min I))))"

section \<open>The sequence-returning bulk forms\<close>

text \<open>
  \<^verbatim>\<open>std::vector<I> float_to_int(std::vector<F> values)\<close> and its mirror image
  \<^verbatim>\<open>std::vector<F> int_to_float(std::vector<I> values)\<close>, on a platform with a 32-bit
  \<^verbatim>\<open>int\<close> and a 64-bit \<^verbatim>\<open>size_t\<close>.

  \<^item> \<^verbatim>\<open>const int length = static_cast<int>(values.size())\<close> keeps the low 32 bits of
    the size, read as two's complement.
  \<^item> \<^verbatim>\<open>converted.reserve(length)\<close> converts the \<^verbatim>\<open>int\<close> back to an unsigned size: a
    negative length becomes a count above \<^verbatim>\<open>max_size()\<close>, and \<^verbatim>\<open>reserve\<close> throws
    \<^verbatim>\<open>std::length_error\<close>.
  \<^item> \<^verbatim>\<open>values.at(i)\<close> throws \<^verbatim>\<open>std::out_of_range\<close> outside the vector.

  An exception, like undefined behaviour in a scalar conversion, is \<open>None\<close>. The two
  \<^verbatim>\<open>for\<close> loops are the same text up to the scalar conversion they call, which is the
  parameter \<open>conv\<close> of the one loop below.
\<close>

definition size_to_int :: "nat \<Rightarrow> int" where
  "size_to_int n = sint (word_of_nat n :: 32 word)"

definition reserve :: "int \<Rightarrow> unit option" where
  "reserve n = (if n < 0 then None else Some ())"

definition vector_at :: "'a list \<Rightarrow> int \<Rightarrow> 'a option" where
  "vector_at xs i = (if 0 \<le> i \<and> i < int (length xs) then Some (xs ! nat i) else None)"

function emplace_loop ::
  "('a \<Rightarrow> 'b option) \<Rightarrow> 'a list \<Rightarrow> int \<Rightarrow> int \<Rightarrow> 'b list \<Rightarrow> 'b list option" where
  "emplace_loop conv values len i converted =
     (if i < len
      then (case vector_at values i of
              None \<Rightarrow> None
            | Some v \<Rightarrow>
                (case conv v of
                   None \<Rightarrow> None
                 | Some c \<Rightarrow> emplace_loop conv values len (i + 1) (converted @ [c])))
      else Some converted)"
  by pat_completeness auto
termination
  by (relation "measure (\<lambda>(conv, values, len, i, converted). nat (len - i))") auto

definition float_to_int_vector :: "ftype \<Rightarrow> itype \<Rightarrow> flt list \<Rightarrow> int list option" where
  "float_to_int_vector F I values =
     (let len = size_to_int (length values)
      in case reserve len of
           None \<Rightarrow> None
         | Some _ \<Rightarrow> emplace_loop (float_to_int F I) values len 0 [])"

definition int_to_float_vector :: "ftype \<Rightarrow> itype \<Rightarrow> int list \<Rightarrow> flt list option" where
  "int_to_float_vector F I values =
     (let len = size_to_int (length values)
      in case reserve len of
           None \<Rightarrow> None
         | Some _ \<Rightarrow> emplace_loop (int_to_float F I) values len 0 [])"

section \<open>The binary exponent\<close>

declare ilog2_up.simps [simp del] ilog2_down.simps [simp del]

lemma digits_pos: "0 < digits F"
  by (cases F) simp_all

lemma powi_2_Suc: "(2::rat) powi (e + 1) = 2 powi e * 2"
  by (simp add: power_int_add)

lemma ilog2_up_bounds:
  assumes "1 \<le> x"
  shows "2 powi (ilog2_up x) \<le> x \<and> x < 2 powi (ilog2_up x + 1)"
  using assms
proof (induction x rule: ilog2_up.induct)
  case (1 x)
  show ?case
  proof (cases "2 \<le> x")
    case True
    define e where "e = ilog2_up (x / 2)"
    have "1 \<le> x / 2" using True by simp
    with True "1.IH" have ih: "2 powi e \<le> x / 2" "x / 2 < 2 powi (e + 1)"
      by (simp_all add: e_def)
    have eq: "ilog2_up x = e + 1"
      using True by (subst ilog2_up.simps) (simp add: e_def)
    have p1: "(2::rat) powi (e + 1) = 2 powi e * 2" by (rule powi_2_Suc)
    have p2: "(2::rat) powi (e + 1 + 1) = 2 powi (e + 1) * 2" by (rule powi_2_Suc)
    show ?thesis
      unfolding eq p2 using ih p1 by auto
  next
    case False
    then have "ilog2_up x = 0" by (subst ilog2_up.simps) simp
    with False "1.prems" show ?thesis by simp
  qed
qed

lemma ilog2_down_bounds:
  assumes "0 < x" "x < 2"
  shows "2 powi (ilog2_down x) \<le> x \<and> x < 2 powi (ilog2_down x + 1)"
  using assms
proof (induction x rule: ilog2_down.induct)
  case (1 x)
  show ?case
  proof (cases "x < 1")
    case True
    with "1.prems" "1.IH" have "2 powi (ilog2_down (x * 2)) \<le> x * 2 \<and> x * 2 < 2 powi (ilog2_down (x * 2) + 1)"
      by simp
    moreover have "ilog2_down x = ilog2_down (x * 2) - 1"
      using True "1.prems" by (subst ilog2_down.simps) simp
    moreover have "(2::rat) powi (ilog2_down (x * 2) - 1 + 1) = 2 powi (ilog2_down (x * 2) - 1) * 2"
      by (rule powi_2_Suc)
    ultimately show ?thesis
      by (simp add: powi_2_Suc)
  next
    case False
    then have "ilog2_down x = 0" by (subst ilog2_down.simps) simp
    with False "1.prems" show ?thesis by simp
  qed
qed

lemma ilog2_bounds:
  assumes "0 < x"
  shows "2 powi (ilog2 x) \<le> x" "x < 2 powi (ilog2 x + 1)"
  using assms ilog2_up_bounds [of x] ilog2_down_bounds [of x]
  by (auto simp add: ilog2_def)

lemma powi_2_less_iff: "(2::rat) powi a < 2 powi b \<longleftrightarrow> a < b"
  by (metis linorder_not_less one_less_numeral_iff order_less_le power_int_increasing power_int_strict_increasing semiring_norm(76))

lemma powi_2_le_iff: "(2::rat) powi a \<le> 2 powi b \<longleftrightarrow> a \<le> b"
  using powi_2_less_iff [of b a] by (auto simp add: not_less [symmetric])

lemma ilog2_unique:
  assumes "2 powi e \<le> x" "x < 2 powi (e + 1)"
  shows "ilog2 x = e"
proof -
  have x: "0 < x" using assms(1) by (rule less_le_trans [rotated]) simp
  note b = ilog2_bounds [OF x]
  have "2 powi e < (2::rat) powi (ilog2 x + 1)" using assms(1) b(2) by (rule le_less_trans)
  then have "e < ilog2 x + 1" by (simp only: powi_2_less_iff)
  moreover have "2 powi (ilog2 x) < (2::rat) powi (e + 1)" using b(1) assms(2) by (rule le_less_trans)
  then have "ilog2 x < e + 1" by (simp only: powi_2_less_iff)
  ultimately show ?thesis by simp
qed

lemma ilog2_mono:
  assumes "0 < x" "x \<le> y"
  shows "ilog2 x \<le> ilog2 y"
proof -
  have y: "0 < y" using assms by simp
  have "2 powi (ilog2 x) \<le> x" using assms(1) by (rule ilog2_bounds)
  also have "x \<le> y" by fact
  also have "y < 2 powi (ilog2 y + 1)" using y by (rule ilog2_bounds)
  finally have "ilog2 x < ilog2 y + 1" by (simp only: powi_2_less_iff)
  then show ?thesis by simp
qed

section \<open>Rounding to the nearest value of \<open>F\<close>\<close>

lemma half_even_mono:
  assumes "x \<le> y"
  shows "half_even x \<le> half_even y"
proof (cases "\<lfloor>x\<rfloor> = \<lfloor>y\<rfloor>")
  case True
  then show ?thesis
    using assms by (auto simp add: half_even_def Let_def)
next
  case False
  moreover have "\<lfloor>x\<rfloor> \<le> \<lfloor>y\<rfloor>" using assms by (rule floor_mono)
  ultimately have "\<lfloor>x\<rfloor> + 1 \<le> \<lfloor>y\<rfloor>" by simp
  moreover have "half_even x \<le> \<lfloor>x\<rfloor> + 1" by (simp add: half_even_def Let_def)
  moreover have "\<lfloor>y\<rfloor> \<le> half_even y" by (simp add: half_even_def Let_def)
  ultimately show ?thesis by linarith
qed

lemma half_even_of_int [simp]: "half_even (of_int k) = k"
  by (simp add: half_even_def)

lemma half_even_minus: "half_even (- x) = - half_even x"
proof (cases "x = of_int \<lfloor>x\<rfloor>")
  case True
  then have "half_even x = \<lfloor>x\<rfloor>" "half_even (- x) = - \<lfloor>x\<rfloor>"
    by (metis half_even_of_int, metis half_even_of_int of_int_minus)
  then show ?thesis by simp
next
  case False
  have c: "\<lceil>x\<rceil> = \<lfloor>x\<rfloor> + 1" using False by (simp add: ceiling_altdef)
  have f: "\<lfloor>- x\<rfloor> = - \<lfloor>x\<rfloor> - 1" using c by (simp add: ceiling_def)
  have "of_int \<lfloor>x\<rfloor> < x" by (metis False of_int_floor_le order_less_le)
  then show ?thesis
    unfolding half_even_def Let_def f by (auto simp add: algebra_simps)
qed

lemma quantum_pos: "0 < quantum F x"
  by (simp add: quantum_def)

lemma quantum_minus: "quantum F (- x) = quantum F x"
  by (simp add: quantum_def)

lemma rnd_0 [simp]: "rnd F 0 = 0"
  using half_even_of_int [of 0] by (simp add: rnd_def)

lemma rnd_minus: "rnd F (- x) = - rnd F x"
  by (simp add: rnd_def quantum_minus half_even_minus)

lemma rnd_nonneg:
  assumes "0 \<le> x"
  shows "0 \<le> rnd F x"
proof -
  have "0 \<le> x / quantum F x" using assms quantum_pos [of F x] by simp
  then have "half_even 0 \<le> half_even (x / quantum F x)" by (rule half_even_mono)
  then have "0 \<le> half_even (x / quantum F x)"
    using half_even_of_int [of 0] by simp
  then show ?thesis
    using quantum_pos [of F x] by (simp add: rnd_def)
qed

lemma rnd_nonpos:
  assumes "x \<le> 0"
  shows "rnd F x \<le> 0"
  using rnd_nonneg [of "- x" F] assms by (simp add: rnd_minus)

lemma powi_2_diff: "(2::rat) powi (a - b) = 2 powi a / 2 powi b"
  by (simp add: power_int_diff)

lemma powi_2_add: "(2::rat) powi (a + b) = 2 powi a * 2 powi b"
  by (simp add: power_int_add)

text \<open>A nonzero multiple of a power of two with a significand below \<open>2 ^ digits\<close>.\<close>

lemma rnd_scaled_strict:
  assumes "\<bar>m\<bar> < 2 ^ digits F"
  shows "rnd F (of_int m * 2 powi j) = of_int m * 2 powi j"
proof (cases "m = 0")
  case True
  then show ?thesis by simp
next
  case False
  define x :: rat where "x = of_int m * 2 powi j"
  define e where "e = ilog2 \<bar>x\<bar>"
  define g where "g = e - (int (digits F) - 1)"
  have ax: "\<bar>x\<bar> = of_int \<bar>m\<bar> * 2 powi j"
    by (simp add: x_def abs_mult)
  have x0: "0 < \<bar>x\<bar>" using False by (simp add: x_def)
  have "(of_int \<bar>m\<bar> :: rat) < of_int (2 ^ digits F)"
    using assms by (simp only: of_int_less_iff)
  then have "\<bar>x\<bar> < 2 ^ digits F * 2 powi j"
    unfolding ax by (simp add: mult_strict_right_mono)
  also have "\<dots> = 2 powi (int (digits F) + j)"
    by (simp add: powi_2_add)
  finally have up: "\<bar>x\<bar> < 2 powi (int (digits F) + j)" .
  have "2 powi e \<le> \<bar>x\<bar>" unfolding e_def using x0 by (rule ilog2_bounds)
  then have "(2::rat) powi e < 2 powi (int (digits F) + j)" using up by (rule le_less_trans)
  then have "e < int (digits F) + j" by (simp only: powi_2_less_iff)
  then have gj: "0 \<le> j - g" by (simp add: g_def)
  have q: "quantum F x = 2 powi g" by (simp add: quantum_def g_def e_def)
  have "x / 2 powi g = of_int m * 2 powi (j - g)"
    by (simp add: x_def powi_2_diff)
  also have "\<dots> = of_int (m * 2 ^ nat (j - g))"
    using gj by (simp add: power_int_nonneg_exp)
  finally have d: "x / 2 powi g = of_int (m * 2 ^ nat (j - g))" .
  have "rnd F x = of_int (m * 2 ^ nat (j - g)) * 2 powi g"
    unfolding rnd_def q d half_even_of_int ..
  also have "\<dots> = of_int m * 2 powi (j - g) * 2 powi g"
    using gj by (simp add: power_int_nonneg_exp)
  also have "\<dots> = x"
    by (simp add: x_def powi_2_diff)
  finally show ?thesis by (simp add: x_def)
qed

lemma rnd_scaled:
  assumes "\<bar>m\<bar> \<le> 2 ^ digits F"
  shows "rnd F (of_int m * 2 powi j) = of_int m * 2 powi j"
proof (cases "\<bar>m\<bar> = 2 ^ digits F")
  case False
  with assms have "\<bar>m\<bar> < 2 ^ digits F" by simp
  then show ?thesis by (rule rnd_scaled_strict)
next
  case True
  have one: "\<bar>1::int\<bar> < 2 ^ digits F"
    using digits_pos [of F] by (simp add: one_less_power)
  have p: "rnd F (of_int 1 * 2 powi (int (digits F) + j)) = of_int 1 * 2 powi (int (digits F) + j)"
    using one by (rule rnd_scaled_strict)
  have "(of_int \<bar>m\<bar> :: rat) * 2 powi j = 2 powi (int (digits F) + j)"
    by (simp add: True powi_2_add)
  then have a: "rnd F (of_int \<bar>m\<bar> * 2 powi j) = of_int \<bar>m\<bar> * 2 powi j"
    using p by simp
  show ?thesis
  proof (cases "0 \<le> m")
    case True
    with a show ?thesis by simp
  next
    case False
    then have "(of_int m :: rat) = - of_int \<bar>m\<bar>" by simp
    then show ?thesis
      using a by (simp add: rnd_minus)
  qed
qed

lemma rnd_of_int:
  assumes "\<bar>k\<bar> \<le> 2 ^ digits F"
  shows "rnd F (of_int k) = of_int k"
  using rnd_scaled [OF assms, of 0] by simp


lemma rnd_power2: "rnd F (of_int (2 ^ n)) = of_int (2 ^ n)"
proof -
  have one: "\<bar>1::int\<bar> \<le> 2 ^ digits F" by simp
  show ?thesis
    using rnd_scaled [OF one, of "int n"] by simp
qed

lemma quantum_pos_eq:
  assumes "0 < x"
  shows "quantum F x = 2 powi (ilog2 x - (int (digits F) - 1))"
  using assms by (simp add: quantum_def)

lemma binade_over_quantum:
  assumes "0 < x"
  shows "2 powi (ilog2 x) / quantum F x = of_int (2 ^ (digits F - 1))"
    and "2 powi (ilog2 x + 1) / quantum F x = of_int (2 ^ digits F)"
proof -
  have "2 powi (ilog2 x) / quantum F x = 2 powi (int (digits F) - 1)"
    unfolding quantum_pos_eq [OF assms] by (simp add: powi_2_diff)
  also have "int (digits F) - 1 = int (digits F - 1)"
    using digits_pos [of F] by simp
  finally show "2 powi (ilog2 x) / quantum F x = of_int (2 ^ (digits F - 1))"
    by simp
  have "2 powi (ilog2 x + 1) / quantum F x = 2 powi (int (digits F))"
    unfolding quantum_pos_eq [OF assms] by (simp add: powi_2_diff powi_2_add)
  then show "2 powi (ilog2 x + 1) / quantum F x = of_int (2 ^ digits F)"
    by simp
qed

lemma rnd_binade:
  assumes "0 < x"
  shows "2 powi (ilog2 x) \<le> rnd F x" "rnd F x \<le> 2 powi (ilog2 x + 1)"
proof -
  define q where "q = quantum F x"
  have q: "0 < q" by (simp add: q_def quantum_pos)
  note b = ilog2_bounds [OF assms]
  have "2 powi (ilog2 x) / q \<le> x / q"
    using b(1) q by (simp add: divide_right_mono)
  then have "half_even (2 powi (ilog2 x) / q) \<le> half_even (x / q)"
    by (rule half_even_mono)
  then have "of_int (2 ^ (digits F - 1)) \<le> (of_int (half_even (x / q)) :: rat)"
    unfolding q_def binade_over_quantum [OF assms] half_even_of_int
    by (simp only: of_int_le_iff)
  then have "of_int (2 ^ (digits F - 1)) * q \<le> rnd F x"
    using q by (simp add: rnd_def q_def)
  moreover have "of_int (2 ^ (digits F - 1)) * q = 2 powi (ilog2 x)"
    using binade_over_quantum(1) [OF assms, of F] q by (simp add: q_def field_simps)
  ultimately show "2 powi (ilog2 x) \<le> rnd F x" by simp
  have "x / q \<le> 2 powi (ilog2 x + 1) / q"
    using b(2) q by (simp add: divide_right_mono)
  then have "half_even (x / q) \<le> half_even (2 powi (ilog2 x + 1) / q)"
    by (rule half_even_mono)
  then have "(of_int (half_even (x / q)) :: rat) \<le> of_int (2 ^ digits F)"
    unfolding q_def binade_over_quantum [OF assms] half_even_of_int
    by (simp only: of_int_le_iff)
  then have "rnd F x \<le> of_int (2 ^ digits F) * q"
    using q by (simp add: rnd_def q_def)
  moreover have "of_int (2 ^ digits F) * q = 2 powi (ilog2 x + 1)"
    using binade_over_quantum(2) [OF assms, of F] q by (simp add: q_def field_simps)
  ultimately show "rnd F x \<le> 2 powi (ilog2 x + 1)" by simp
qed

lemma rnd_mono_pos:
  assumes "0 < x" "x \<le> y"
  shows "rnd F x \<le> rnd F y"
proof (cases "ilog2 x = ilog2 y")
  case True
  have y: "0 < y" using assms by simp
  have q: "quantum F x = quantum F y"
    using assms(1) y True by (simp add: quantum_pos_eq)
  have "x / quantum F y \<le> y / quantum F y"
    using assms(2) quantum_pos [of F y] by (simp add: divide_right_mono)
  then have "half_even (x / quantum F y) \<le> half_even (y / quantum F y)"
    by (rule half_even_mono)
  then show ?thesis
    using quantum_pos [of F y] by (simp add: rnd_def q)
next
  case False
  have y: "0 < y" using assms by simp
  have "ilog2 x \<le> ilog2 y" using assms by (rule ilog2_mono)
  with False have "ilog2 x + 1 \<le> ilog2 y" by simp
  then have "(2::rat) powi (ilog2 x + 1) \<le> 2 powi (ilog2 y)"
    by (simp only: powi_2_le_iff)
  with rnd_binade(2) [OF assms(1), of F] rnd_binade(1) [OF y, of F]
  show ?thesis by linarith
qed

lemma rnd_mono:
  assumes "x \<le> y"
  shows "rnd F x \<le> rnd F y"
proof -
  consider (pos) "0 < x" | (neg) "y < 0" | (mid) "x \<le> 0" "0 \<le> y"
    by linarith
  then show ?thesis
  proof cases
    case pos
    then show ?thesis using assms by (rule rnd_mono_pos)
  next
    case neg
    then have "0 < - y" "- y \<le> - x" using assms by simp_all
    then have "rnd F (- y) \<le> rnd F (- x)" by (rule rnd_mono_pos)
    then show ?thesis by (simp add: rnd_minus)
  next
    case mid
    then have "rnd F x \<le> 0" "0 \<le> rnd F y"
      by (simp_all add: rnd_nonpos rnd_nonneg)
    then show ?thesis by linarith
  qed
qed

text \<open>Every rounded value is a significand of at most \<open>digits\<close> bits times a power of two.\<close>

lemma rnd_form:
  "\<exists>m j. \<bar>m\<bar> \<le> 2 ^ digits F \<and> rnd F x = of_int m * 2 powi j"
proof -
  have pos: "\<exists>m j. \<bar>m\<bar> \<le> 2 ^ digits F \<and> rnd F y = of_int m * 2 powi j" if y: "0 < y" for y
  proof -
    define m where "m = half_even (y / quantum F y)"
    have "0 \<le> y / quantum F y" using y quantum_pos [of F y] by simp
    then have "half_even 0 \<le> m" unfolding m_def by (rule half_even_mono)
    then have m0: "0 \<le> m" using half_even_of_int [of 0] by simp
    have "y / quantum F y \<le> 2 powi (ilog2 y + 1) / quantum F y"
      using ilog2_bounds(2) [OF y] quantum_pos [of F y] by (simp add: divide_right_mono)
    then have "m \<le> half_even (2 powi (ilog2 y + 1) / quantum F y)"
      unfolding m_def by (rule half_even_mono)
    then have "m \<le> 2 ^ digits F"
      unfolding binade_over_quantum [OF y] half_even_of_int .
    with m0 have "\<bar>m\<bar> \<le> 2 ^ digits F" by simp
    moreover have "rnd F y = of_int m * 2 powi (ilog2 y - (int (digits F) - 1))"
      by (simp add: rnd_def m_def quantum_pos_eq [OF y])
    ultimately show ?thesis by blast
  qed
  consider "0 < x" | "x = 0" | "0 < - x" by linarith
  then show ?thesis
  proof cases
    case 1
    then show ?thesis by (rule pos)
  next
    case 2
    have "\<bar>0::int\<bar> \<le> 2 ^ digits F \<and> rnd F x = of_int 0 * 2 powi 0"
      using 2 by simp
    then show ?thesis by blast
  next
    case 3
    from pos [OF 3] obtain m j where "\<bar>m\<bar> \<le> 2 ^ digits F" "rnd F (- x) = of_int m * 2 powi j"
      by blast
    then have "\<bar>- m\<bar> \<le> 2 ^ digits F \<and> rnd F x = of_int (- m) * 2 powi j"
      by (simp add: rnd_minus)
    then show ?thesis by blast
  qed
qed

lemma rnd_idem [simp]: "rnd F (rnd F x) = rnd F x"
proof -
  obtain m j where "\<bar>m\<bar> \<le> 2 ^ digits F" "rnd F x = of_int m * 2 powi j"
    using rnd_form by blast
  then show ?thesis by (simp add: rnd_scaled)
qed


section \<open>Limits and zero point of an integer type\<close>

lemma get_zero_unsigned:
  assumes "is_unsigned I" "0 < width I"
  shows "get_zero I = 2 ^ (width I - 1)"
proof -
  obtain k where k: "width I = Suc k"
    using assms(2) by (cases "width I") auto
  have half: "(2 * 2 ^ k - 1) div 2 = (2::int) ^ k - 1"
    by simp
  have "(2::int) ^ k < 2 * 2 ^ k"
    by simp
  then have "((2::int) ^ k) mod (2 * 2 ^ k) = 2 ^ k"
    by simp
  with half show ?thesis
    using assms(1) k by (simp add: get_zero_def limits_max_def)
qed

lemma limits_max_unsigned:
  assumes "is_unsigned I" "0 < width I"
  shows "limits_max I = 2 * get_zero I - 1"
proof -
  obtain k where k: "width I = Suc k"
    using assms(2) by (cases "width I") auto
  show ?thesis
    using assms k by (simp add: get_zero_unsigned limits_max_def)
qed


section \<open>What \<open>round_float\<close> computes\<close>


lemma half_even_nearest: "\<bar>of_int (half_even x) - x\<bar> \<le> 1 / 2"
proof -
  have "of_int \<lfloor>x\<rfloor> \<le> x" "x < of_int \<lfloor>x\<rfloor> + 1"
    by linarith+
  then show ?thesis
    by (auto simp add: half_even_def Let_def abs_le_iff)
qed

lemma half_even_tie:
  assumes "x - of_int \<lfloor>x\<rfloor> = 1 / 2"
  shows "even (half_even x)"
  using assms by (simp add: half_even_def Let_def)




lemma cast_I_of_int:
  assumes "limits_min I \<le> k" "k \<le> limits_max I"
  shows "cast_I I (of_int k) = Some k"
  using assms by (simp add: cast_I_def float_to_integral_def trunc_def)




lemma of_integral_exact:
  assumes "\<bar>k\<bar> \<le> 2 ^ digits F"
  shows "of_integral F k = of_int k"
  using assms by (simp add: of_integral_def rnd_of_int)

lemma of_integral_power2: "of_integral F (2 ^ n) = of_int (2 ^ n)"
  unfolding of_integral_def by (rule rnd_power2)


lemma of_integral_small [simp]: "of_integral F 0 = 0" "of_integral F 1 = 1"
proof -
  show "of_integral F 0 = 0" by (simp add: of_integral_def)
  have "\<bar>1::int\<bar> \<le> 2 ^ digits F" by simp
  then show "of_integral F 1 = 1" using of_integral_exact [of 1 F] by simp
qed

text \<open>On an integer that \<open>T\<close> holds exactly, \<open>round_float\<close> is the identity.\<close>

lemma round_float_of_int:
  assumes "of_integral T k = of_int k" "INT_MIN \<le> k" "k \<le> INT_MAX"
  shows "round_float T (of_int k) = Some (of_int k)"
proof -
  have c: "cast_int (of_int k) = Some k"
    using assms(2,3) by (simp add: cast_int_def float_to_integral_def trunc_def)
  have rem: "fsub T (of_int k) (of_integral T k) = 0"
    by (simp add: fsub_def assms(1))
  show ?thesis
    unfolding round_float_def Let_def c option.case rem
    using assms by simp
qed



section \<open>The loop of the bulk forms\<close>

lemma size_to_int_small:
  assumes "int n \<le> INT_MAX"
  shows "size_to_int n = int n"
proof -
  have "int n < 2 ^ 31" using assms by (simp add: INT_MAX_def)
  moreover have "- (2 ^ 31) \<le> int n" by simp
  ultimately have "signed_take_bit 31 (int n) = int n"
    by (intro signed_take_bit_int_eq_self)
  then show ?thesis
    by (simp add: size_to_int_def signed_of_nat)
qed

declare emplace_loop.simps [simp del]

lemma emplace_loop_iff:
  assumes "len = int (length xs)" "0 \<le> i"
  shows "(emplace_loop conv xs len i acc = Some ys)
       = (\<exists>zs. ys = acc @ zs \<and> map conv (drop (nat i) xs) = map Some zs)"
  using assms
proof (induction conv xs len i acc arbitrary: ys rule: emplace_loop.induct)
  case (1 conv xs len i acc)
  show ?case
  proof (cases "i < len")
    case False
    then have "drop (nat i) xs = []" using "1.prems" by simp
    with False show ?thesis
      by (subst emplace_loop.simps) auto
  next
    case True
    then have n: "nat i < length xs" using "1.prems" by simp
    then have at: "vector_at xs i = Some (xs ! nat i)"
      using "1.prems" by (simp add: vector_at_def)
    have d: "drop (nat i) xs = xs ! nat i # drop (nat (i + 1)) xs"
      using n "1.prems"(2) by (simp add: Cons_nth_drop_Suc nat_add_distrib)
    show ?thesis
    proof (cases "conv (xs ! nat i)")
      case None
      with True at d show ?thesis
        by (subst emplace_loop.simps) (auto simp add: map_eq_Cons_conv)
    next
      case (Some c)
      have "(emplace_loop conv xs len (i + 1) (acc @ [c]) = Some ys)
          = (\<exists>zs. ys = (acc @ [c]) @ zs \<and> map conv (drop (nat (i + 1)) xs) = map Some zs)"
        using True at Some "1.prems" by (intro "1.IH") simp_all
      also have "\<dots> = (\<exists>zs. ys = acc @ zs \<and> map conv (drop (nat i) xs) = map Some zs)"
        using Some d by (auto simp add: Cons_eq_map_conv)
      finally show ?thesis
        using True at Some by (subst emplace_loop.simps) simp
    qed
  qed
qed

section \<open>\<open>float_to_int\<close> on the clamped domain, branch by branch\<close>

text \<open>
  The branches are taken for a floating type that holds the integers and half-integers up
  to the maximum of \<open>I\<close> exactly (\<open>2 * max + 1 \<le> 2 ^ digits\<close>), or at least the maximum
  itself (\<open>max < 2 ^ digits\<close>).
\<close>

lemma of_integral_get_zero:
  assumes "is_unsigned I" "0 < width I"
  shows "of_integral F (get_zero I) = of_int (get_zero I)"
  unfolding get_zero_unsigned [OF assms] by (rule of_integral_power2)










section \<open>The zero point\<close>

text \<open>
  C2. For every floating type and every integer type, \<open>float_to_int 0.0\<close> is the type's
  zero point \<open>get_zero\<close>, and \<open>int_to_float\<close> of the zero point is \<open>0.0\<close>: both
  directions return at their first test, before any arithmetic.
\<close>

theorem zero_point_roundtrip:
  "float_to_int F I 0 = Some (get_zero I) \<and> int_to_float F I (get_zero I) = Some 0"
  by (simp add: float_to_int_def int_to_float_def)

section \<open>The extremes of the float domain\<close>






section \<open>Monotonicity\<close>




section \<open>The code 0 of an unsigned type\<close>

text \<open>
  C10. For every floating type and every unsigned integer type of at least two bits, the
  code 0 lies below the zero point, \<open>float_to_int\<close> assigns it to \<open>-1.0\<close>, and
  \<open>int_to_float 0\<close> is the quotient \<open>0 / (zero_point - 1)\<close> of the below-zero-point
  branch, which is exactly \<open>0.0\<close>: the same output as for the zero point itself. (With a
  single bit the divisor \<open>zero_point - 1\<close> is 0 and the quotient is not a finite value.)
\<close>

theorem int_to_float_unsigned_0:
  assumes "is_unsigned I" "2 \<le> width I"
  shows "0 < get_zero I
       \<and> float_to_int F I (- 1) = Some 0
       \<and> int_to_float F I 0 = fdiv F 0 (of_integral F (get_zero I - 1))
       \<and> int_to_float F I 0 = Some 0
       \<and> int_to_float F I (get_zero I) = Some 0"
proof -
  have w: "0 < width I" using assms(2) by simp
  have z: "get_zero I = 2 ^ (width I - 1)"
    using assms(1) w by (rule get_zero_unsigned)
  have "(2::int) ^ 1 \<le> 2 ^ (width I - 1)"
    using assms(2) by (intro power_increasing) simp_all
  then have z2: "2 \<le> get_zero I" by (simp add: z)
  have Z: "of_integral F (get_zero I) = of_int (get_zero I)"
    using assms(1) w by (rule of_integral_get_zero)
  have "rnd F (- of_int (get_zero I)) = - of_int (get_zero I)"
    using Z by (simp add: rnd_minus of_integral_def)
  then have "fadd F (of_integral F (get_zero I)) (fmul F (- 1) (of_integral F (get_zero I))) = of_int 0"
    by (simp add: Z fadd_def fmul_def)
  moreover have "cast_I I (of_int 0) = Some 0"
    using assms(1) z2 limits_max_unsigned [OF assms(1) w]
    by (intro cast_I_of_int) (simp_all add: limits_min_def)
  moreover have "round_float F (of_int 0) = Some (of_int 0)"
    by (intro round_float_of_int) (simp_all add: INT_MIN_def INT_MAX_def)
  ultimately have m1: "float_to_int F I (- 1) = Some 0"
    using assms(1) by (simp add: float_to_int_def)
  have i0: "int_to_float F I 0 = fdiv F 0 (of_integral F (get_zero I - 1))"
    using assms(1) z2 by (simp add: int_to_float_def)
  have "rnd F (of_int 1) \<le> rnd F (of_int (get_zero I - 1))"
    using z2 by (intro rnd_mono) simp
  moreover have "rnd F (of_int 1) = 1"
    using of_integral_small(2) [of F] by (simp add: of_integral_def)
  ultimately have "of_integral F (get_zero I - 1) \<noteq> 0"
    by (simp add: of_integral_def)
  then have "fdiv F 0 (of_integral F (get_zero I - 1)) = Some 0"
    by (simp add: fdiv_def)
  with i0 m1 z2 show ?thesis
    by (simp add: int_to_float_def)
qed

theorem int_to_float_unsigned_0_witness:
  "is_unsigned uint8_t \<and> 2 \<le> width uint8_t
   \<and> get_zero uint8_t = 128
   \<and> float_to_int Float uint8_t (- 1) = Some 0
   \<and> int_to_float Float uint8_t 0 = Some 0
   \<and> int_to_float Float uint8_t 128 = Some 0"
proof -
  have h: "is_unsigned uint8_t" "2 \<le> width uint8_t"
    by (simp_all add: uint8_t_def)
  have z: "get_zero uint8_t = 128"
    by (simp add: get_zero_def limits_max_def uint8_t_def)
  from int_to_float_unsigned_0 [OF h, of Float]
  have "float_to_int Float uint8_t (- 1) = Some 0" "int_to_float Float uint8_t 0 = Some 0"
    "int_to_float Float uint8_t (get_zero uint8_t) = Some 0"
    by blast+
  with h z show ?thesis
    by simp
qed

section \<open>Where the code departs from its contract\<close>

text \<open>
  Every input below is a dyadic fraction, and every intermediate result is one that
  \<^verbatim>\<open>float\<close> and \<^verbatim>\<open>double\<close> hold exactly; each statement is evaluated for both.
\<close>

text \<open>
  C6. \<open>round_float\<close> is meant to round to the nearest integer, ties to even, the same
  distance on both sides of zero. For a negative input the remainder after truncation is
  never positive, so \<open>roundValue\<close> is 0 and the input is truncated toward zero:
  \<open>-1.75\<close> gives \<open>-1\<close> where \<open>1.75\<close> gives \<open>2\<close>, and the tie \<open>-1.5\<close> gives the odd
  \<open>-1\<close> where \<open>1.5\<close> gives \<open>2\<close>. The three ties that the contract lists hold.
\<close>

theorem round_float_negative_truncates:
  "round_float Float (- 7 / 4) = Some (- 1) \<and> round_float Float (7 / 4) = Some 2
   \<and> round_float Float (- 3 / 2) = Some (- 1) \<and> round_float Float (3 / 2) = Some 2
   \<and> round_float Float (1 / 2) = Some 0 \<and> round_float Float (5 / 2) = Some 2
   \<and> round_float Double (- 7 / 4) = Some (- 1) \<and> round_float Double (7 / 4) = Some 2
   \<and> round_float Double (- 3 / 2) = Some (- 1) \<and> round_float Double (3 / 2) = Some 2
   \<and> round_float Double (1 / 2) = Some 0 \<and> round_float Double (5 / 2) = Some 2"
  by code_simp

text \<open>
  C7. On an unsigned type a positive input is meant to be rounded like the other three
  branches. The branch casts \<open>v * (zero_point - 1) + zero_point\<close> to the integer type
  without calling \<open>round_float\<close>: \<open>0.25\<close> on \<^verbatim>\<open>uint8_t\<close> is \<open>159.75\<close> before the
  cast and 159 after, where \<open>round_float\<close> of the same value is 160.
\<close>

theorem float_to_int_unsigned_positive_truncates:
  "float_to_int Float uint8_t (1 / 4) = Some 159
   \<and> float_to_int Double uint8_t (1 / 4) = Some 159
   \<and> fadd Float (fmul Float (1 / 4) (of_integral Float (get_zero uint8_t - 1)))
        (of_integral Float (get_zero uint8_t)) = 639 / 4
   \<and> fadd Double (fmul Double (1 / 4) (of_integral Double (get_zero uint8_t - 1)))
        (of_integral Double (get_zero uint8_t)) = 639 / 4
   \<and> round_float Float (639 / 4) = Some 160
   \<and> round_float Double (639 / 4) = Some 160"
  by code_simp

text \<open>
  C5. For a negative value of a signed type \<open>int_to_float\<close> is meant to divide by the
  magnitude of the minimum. It multiplies by the maximum: \<open>-1\<close> of \<^verbatim>\<open>int16_t\<close> becomes
  \<open>-32767.0\<close>, where \<open>-1 / 32768\<close> is meant, and the result is outside \<open>[-1, 0)\<close>.
\<close>

theorem int_to_float_signed_negative_multiplies:
  "int_to_float Float int16_t (- 1) = Some (- 32767)
   \<and> int_to_float Double int16_t (- 1) = Some (- 32767)
   \<and> of_int (- 1) / \<bar>of_int (limits_min int16_t)\<bar> = (- 1 / 32768 :: rat)"
  by code_simp

text \<open>
  C1. An integer converted to float and back is meant to come back unchanged. On
  \<^verbatim>\<open>uint8_t\<close> the code 0 becomes \<open>0.0\<close> and comes back as the zero point 128, and 255
  becomes \<open>127/128\<close> and comes back as 254; on \<^verbatim>\<open>int16_t\<close> the value 1 becomes
  \<open>-32768.0\<close>, whose conversion back leaves the range of the type.
\<close>

theorem integer_roundtrip_changes_value:
  "int_to_float Float uint8_t 0 = Some 0 \<and> float_to_int Float uint8_t 0 = Some 128
   \<and> int_to_float Float uint8_t 255 = Some (127 / 128)
   \<and> float_to_int Float uint8_t (127 / 128) = Some 254
   \<and> int_to_float Float int16_t 1 = Some (- 32768)
   \<and> float_to_int Float int16_t (- 32768) = None
   \<and> int_to_float Double uint8_t 0 = Some 0 \<and> float_to_int Double uint8_t 0 = Some 128
   \<and> int_to_float Double uint8_t 255 = Some (127 / 128)
   \<and> float_to_int Double uint8_t (127 / 128) = Some 254
   \<and> int_to_float Double int16_t 1 = Some (- 32768)
   \<and> float_to_int Double int16_t (- 32768) = None"
  by code_simp

text \<open>
  C4. A float in \<open>[-1, 1]\<close> converted to integer and back is meant to come back within
  one quantization step. On \<^verbatim>\<open>uint8_t\<close>, \<open>-1.0\<close> becomes the code 0 and comes back as
  \<open>0.0\<close>; on \<^verbatim>\<open>int16_t\<close>, \<open>0.5\<close> becomes 16384 and comes back as \<open>-536870912.0\<close>.
  Both errors are at least 1, above a step of any type.
\<close>

theorem float_roundtrip_error_exceeds_step:
  "float_to_int Float uint8_t (- 1) = Some 0 \<and> int_to_float Float uint8_t 0 = Some 0
   \<and> float_to_int Double uint8_t (- 1) = Some 0 \<and> int_to_float Double uint8_t 0 = Some 0
   \<and> 1 / of_int (limits_max uint8_t - limits_min uint8_t) < \<bar>0 - (- 1 :: rat)\<bar>
   \<and> float_to_int Float int16_t (1 / 2) = Some 16384
   \<and> int_to_float Float int16_t 16384 = Some (- 536870912)
   \<and> float_to_int Double int16_t (1 / 2) = Some 16384
   \<and> int_to_float Double int16_t 16384 = Some (- 536870912)
   \<and> 1 / of_int (limits_max int16_t - limits_min int16_t) < \<bar>- 536870912 - (1 / 2 :: rat)\<bar>"
  by code_simp

section \<open>Bulk conversion\<close>

text \<open>
  C9, as stated, for a sequence of any length. A vector of \<open>2 ^ 32\<close> elements has the
  \<^verbatim>\<open>int\<close> length 0: the bulk form returns the empty vector. A vector of \<open>2 ^ 31\<close> elements
  has a negative \<^verbatim>\<open>int\<close> length: \<^verbatim>\<open>reserve\<close> throws. In both cases every element has
  a scalar conversion.
\<close>

theorem bulk_length_truncated:
  "float_to_int_vector Float uint8_t (replicate 4294967296 0) = Some []
   \<and> map (float_to_int Float uint8_t) (replicate 4294967296 0) = replicate 4294967296 (Some 128)
   \<and> int_to_float_vector Float uint8_t (replicate 2147483648 128) = None
   \<and> map (int_to_float Float uint8_t) (replicate 2147483648 128) = replicate 2147483648 (Some 0)"
proof -
  have z: "get_zero uint8_t = 128"
    by (simp add: get_zero_def limits_max_def uint8_t_def)
  have "float_to_int_vector Float uint8_t (replicate 4294967296 0) = Some []"
    by (simp add: float_to_int_vector_def size_to_int_def reserve_def emplace_loop.simps)
  moreover have "int_to_float_vector Float uint8_t (replicate 2147483648 128) = None"
    by (simp add: int_to_float_vector_def size_to_int_def reserve_def)
  ultimately show ?thesis
    by (simp add: float_to_int_def int_to_float_def z)
qed

text \<open>
  C9, amended. For every input sequence of at most \<open>INT_MAX = 2 ^ 31 - 1\<close> elements
  (the empty sequence and the sequences of one element among them), each bulk form
  returns the sequence \<open>ys\<close> exactly when the scalar conversion of the \<open>i\<close>-th input is
  defined and is the \<open>i\<close>-th element of \<open>ys\<close>, for every \<open>i\<close>.
\<close>

theorem bulk_is_elementwise:
  assumes "int (length xs) \<le> INT_MAX" "int (length ks) \<le> INT_MAX"
  shows "((float_to_int_vector F I xs = Some ys) = (map (float_to_int F I) xs = map Some ys))
       \<and> ((int_to_float_vector F I ks = Some fs) = (map (int_to_float F I) ks = map Some fs))"
  using assms
  by (simp add: float_to_int_vector_def int_to_float_vector_def size_to_int_small
      reserve_def emplace_loop_iff)

theorem bulk_is_elementwise_witness:
  "int (length [0, 1, - 1 :: rat]) \<le> INT_MAX \<and> int (length [128, 255 :: int]) \<le> INT_MAX
   \<and> float_to_int_vector Float uint8_t [0, 1, - 1] = Some [128, 255, 0]
   \<and> int_to_float_vector Float uint8_t [128, 255] = Some [0, 127 / 128]"
proof -
  have h: "int (length [0, 1, - 1 :: rat]) \<le> INT_MAX" "int (length [128, 255 :: int]) \<le> INT_MAX"
    by (simp_all add: INT_MAX_def)
  have "map (float_to_int Float uint8_t) [0, 1, - 1] = map Some [128, 255, 0]"
    by code_simp
  moreover have "map (int_to_float Float uint8_t) [128, 255] = map Some [0, 127 / 128]"
    by code_simp
  ultimately show ?thesis
    using bulk_is_elementwise [OF h, of Float uint8_t "[128, 255, 0]" "[0, 127 / 128]"] h
    by simp
qed

end
